theory Spec2Isabelle
  imports Main "HOL-Library.Word" "HOL-Library.Signed_Division"
begin

unbundle bit_operations_syntax

section \<open>The microcontroller as seen by the firmware\<close>

text \<open>
  The firmware \<^verbatim>\<open>sss_ornament_2023_fw.ino\<close> runs on an 8-bit AVR (tinyAVR 1-series):
  \<^verbatim>\<open>int\<close> is 16 bits wide, \<^verbatim>\<open>uint32_t\<close> is \<^verbatim>\<open>unsigned long\<close>. The calls into the
  Arduino core and avr-libc (\<^verbatim>\<open>analogWrite\<close>, \<^verbatim>\<open>digitalWrite\<close>, \<^verbatim>\<open>delay\<close>,
  \<^verbatim>\<open>millis\<close>, the sleep macros) and the accesses to I/O registers are the primitive
  operations of the model. Each one updates the machine state and appends an event
  to a log, so that the order of operations can be stated.
\<close>

type_synonym u8 = "8 word"
type_synonym u32 = "32 word"

datatype pin = PIN_PA1 | PIN_PA2 | PIN_PA3 | PIN_PA6 | PIN_PA7

datatype level = LOW | HIGH

text \<open>What the last write left on an output pin: a level, or a PWM duty of 0..255.\<close>

datatype drive = Level level | Pwm u8

datatype sleep_mode_t = SLEEP_MODE_IDLE | SLEEP_MODE_STANDBY | SLEEP_MODE_PWR_DOWN

datatype reg = TCD0_CTRLA | TCD0_CTRLC | TCD0_FAULTCTRL | TCD0_STATUS | CPU_CCP | PORTA_INTFLAGS

text \<open>
  \<^verbatim>\<open>pano_color_t\<close> is a C enum, that is an integer: the main loop computes the next
  colour by integer addition and casts the sum back, and \<^verbatim>\<open>pano_led_write\<close> has a
  \<^verbatim>\<open>default\<close> branch for the values that are none of the enumerators.
\<close>

type_synonym pano_color_t = int

definition PANO_COLOR_RED :: pano_color_t where [simp]: "PANO_COLOR_RED = 0"
definition PANO_COLOR_GREEN :: pano_color_t where [simp]: "PANO_COLOR_GREEN = 1"
definition PANO_COLOR_BLUE :: pano_color_t where [simp]: "PANO_COLOR_BLUE = 2"
definition PANO_COLOR_BROWN :: pano_color_t where [simp]: "PANO_COLOR_BROWN = 3"
definition PANO_COLOR_CYAN :: pano_color_t where [simp]: "PANO_COLOR_CYAN = 4"
definition PANO_COLOR_YELLOW :: pano_color_t where [simp]: "PANO_COLOR_YELLOW = 5"
definition PANO_COLOR_COUNT :: pano_color_t where [simp]: "PANO_COLOR_COUNT = 6"

definition PANO_LED_R_PIN :: pin where [simp]: "PANO_LED_R_PIN = PIN_PA7"
definition PANO_LED_G_PIN :: pin where [simp]: "PANO_LED_G_PIN = PIN_PA2"
definition PANO_LED_B_PIN :: pin where [simp]: "PANO_LED_B_PIN = PIN_PA1"
definition HOUSE_LED_PIN :: pin where [simp]: "HOUSE_LED_PIN = PIN_PA6"
definition PIR_IN :: pin where [simp]: "PIR_IN = PIN_PA3"

definition PANO_LED_DUTY_CYCLE :: int where [simp]: "PANO_LED_DUTY_CYCLE = 70"

definition SLEEP_TIMEOUT_MIN :: u32 where [simp]: "SLEEP_TIMEOUT_MIN = 15"
definition SLEEP_TIMEOUT_MS :: u32 where [simp]: "SLEEP_TIMEOUT_MS = 1000 * 60 * SLEEP_TIMEOUT_MIN"

datatype event =
    Call_pano_led_write pano_color_t u8
  | AnalogWrite pin u8
  | DigitalWrite pin level
  | Delay u32
  | RegWrite reg u8
  | RegRead reg u8
  | SleepCpu sleep_mode_t

text \<open>
  The two globals of the firmware (\<open>start_ms\<close>, \<open>current_pano_color\<close>), and the
  hardware state the claims are about: the millisecond counter behind \<^verbatim>\<open>millis()\<close>,
  the output pins, the sleep controller, the I/O registers written by the code, and
  the log of primitive operations.
\<close>

record mcu =
  start_ms :: u32
  current_pano_color :: pano_color_t
  clock :: u32
  pin_out :: "pin \<Rightarrow> drive"
  sleep_enabled :: bool
  sleep_mode :: sleep_mode_t
  io_reg :: "reg \<Rightarrow> u8"
  log :: "event list"

text \<open>
  A call either returns a state, or runs into undefined behaviour of C, or has not
  returned: a loop that is still running when the fuel is used up, or a core that
  sleeps and is never woken. \<open>Pending\<close> carries the state reached so far.
\<close>

datatype fault = DivByZero | SignedOverflow

datatype 'a run = Done 'a | Fault fault | Pending 'a

definition emit :: "event \<Rightarrow> mcu \<Rightarrow> mcu" where
  "emit e s = s\<lparr>log := log s @ [e]\<rparr>"

definition seq :: "('s \<Rightarrow> 's) list \<Rightarrow> 's \<Rightarrow> 's" where
  "seq fs s = fold (\<lambda>f. f) fs s"

definition analogWrite :: "pin \<Rightarrow> u8 \<Rightarrow> mcu \<Rightarrow> mcu" where
  "analogWrite p v s = emit (AnalogWrite p v) (s\<lparr>pin_out := (pin_out s)(p := Pwm v)\<rparr>)"

definition digitalWrite :: "pin \<Rightarrow> level \<Rightarrow> mcu \<Rightarrow> mcu" where
  "digitalWrite p l s = emit (DigitalWrite p l) (s\<lparr>pin_out := (pin_out s)(p := Level l)\<rparr>)"

text \<open>
  Time: \<^verbatim>\<open>millis()\<close> reads the millisecond counter, \<^verbatim>\<open>delay(ms)\<close> returns when the
  counter has advanced by \<open>ms\<close> (modulo \<open>2^32\<close>). The other operations take no time.
\<close>

definition millis :: "mcu \<Rightarrow> u32" where
  "millis s = clock s"

definition delay :: "u32 \<Rightarrow> mcu \<Rightarrow> mcu" where
  "delay ms s = emit (Delay ms) (s\<lparr>clock := clock s + ms\<rparr>)"

section \<open>Pano LED driver\<close>

text \<open>
  \<^verbatim>\<open>pano_led_write\<close>, with the \<^verbatim>\<open>switch\<close> as a chain of tests in the order of its
  cases. The log records the call with its arguments, then the pin operations.
\<close>

definition pano_led_write :: "pano_color_t \<Rightarrow> u8 \<Rightarrow> mcu \<Rightarrow> mcu" where
  "pano_led_write color duty_cycle s =
     seq (if color = PANO_COLOR_RED then
            [analogWrite PANO_LED_R_PIN duty_cycle,
             digitalWrite PANO_LED_G_PIN LOW,
             digitalWrite PANO_LED_B_PIN LOW]
          else if color = PANO_COLOR_GREEN then
            [analogWrite PANO_LED_G_PIN duty_cycle,
             digitalWrite PANO_LED_R_PIN LOW,
             digitalWrite PANO_LED_B_PIN LOW]
          else if color = PANO_COLOR_BLUE then
            [analogWrite PANO_LED_B_PIN duty_cycle,
             digitalWrite PANO_LED_R_PIN LOW,
             digitalWrite PANO_LED_G_PIN LOW]
          else if color = PANO_COLOR_BROWN then
            [analogWrite PANO_LED_R_PIN duty_cycle,
             analogWrite PANO_LED_G_PIN duty_cycle,
             digitalWrite PANO_LED_B_PIN LOW]
          else if color = PANO_COLOR_CYAN then
            [analogWrite PANO_LED_G_PIN duty_cycle,
             analogWrite PANO_LED_B_PIN duty_cycle,
             digitalWrite PANO_LED_R_PIN LOW]
          else if color = PANO_COLOR_YELLOW then
            [analogWrite PANO_LED_R_PIN duty_cycle,
             analogWrite PANO_LED_B_PIN duty_cycle,
             digitalWrite PANO_LED_G_PIN LOW]
          else
            [digitalWrite PANO_LED_R_PIN LOW,
             digitalWrite PANO_LED_G_PIN LOW,
             digitalWrite PANO_LED_B_PIN LOW])
       (emit (Call_pano_led_write color duty_cycle) s)"

section \<open>Pulse animator\<close>

text \<open>
  The arithmetic of \<^verbatim>\<open>pano_led_pulse\<close> is done in \<^verbatim>\<open>int\<close>, 16 bits on this target.
  \<^verbatim>\<open>on_duration_ms / step_delay_ms\<close> is an unsigned 32-bit division (the \<^verbatim>\<open>int\<close>
  operand is converted to \<^verbatim>\<open>unsigned long\<close>), and its quotient is converted to
  \<^verbatim>\<open>int\<close> by keeping the low 16 bits, read as two's complement. Division by zero
  and signed overflow are undefined behaviour and end the run with a fault.
  Division of ints truncates towards zero (\<open>sdiv\<close>).
\<close>

definition INT_MIN :: int where [simp]: "INT_MIN = - 32768"
definition INT_MAX :: int where [simp]: "INT_MAX = 32767"

definition int_of_u32 :: "u32 \<Rightarrow> int" where
  "int_of_u32 w = sint (ucast w :: 16 word)"

definition uint8_of_int :: "int \<Rightarrow> u8" where
  "uint8_of_int i = word_of_int i"

definition int_div :: "int \<Rightarrow> int \<Rightarrow> fault + int" where
  "int_div a b =
     (if b = 0 then Inl DivByZero
      else if a sdiv b < INT_MIN \<or> INT_MAX < a sdiv b then Inl SignedOverflow
      else Inr (a sdiv b))"

definition int_add :: "int \<Rightarrow> int \<Rightarrow> fault + int" where
  "int_add a b =
     (if a + b < INT_MIN \<or> INT_MAX < a + b then Inl SignedOverflow else Inr (a + b))"

definition int_sub :: "int \<Rightarrow> int \<Rightarrow> fault + int" where
  "int_sub a b =
     (if a - b < INT_MIN \<or> INT_MAX < a - b then Inl SignedOverflow else Inr (a - b))"

definition step_delay_ms :: int where [simp]: "step_delay_ms = 10"

text \<open>\<^verbatim>\<open>int steps = duration_ms / step_delay_ms;\<close>\<close>

definition steps :: "u32 \<Rightarrow> int" where
  "steps duration_ms = int_of_u32 (duration_ms div word_of_int step_delay_ms)"

text \<open>\<^verbatim>\<open>int duty_increment = PANO_LED_DUTY_CYCLE / steps;\<close>\<close>

definition duty_increment :: "u32 \<Rightarrow> fault + int" where
  "duty_increment duration_ms = int_div PANO_LED_DUTY_CYCLE (steps duration_ms)"

text \<open>
  The body of each loop of \<^verbatim>\<open>pano_led_pulse\<close>:
  \<^verbatim>\<open>pano_led_write(color, new_duty); delay(step_delay_ms);\<close>.
  The \<^verbatim>\<open>int\<close> duty is converted to the \<^verbatim>\<open>uint8_t\<close> parameter, the \<^verbatim>\<open>int\<close> delay to
  \<^verbatim>\<open>unsigned long\<close>.
\<close>

definition ramp_step :: "pano_color_t \<Rightarrow> mcu \<Rightarrow> int \<Rightarrow> mcu" where
  "ramp_step color s new_duty =
     seq [pano_led_write color (uint8_of_int new_duty),
          delay (word_of_int step_delay_ms)] s"

text \<open>
  The first loop of \<^verbatim>\<open>pano_led_pulse\<close>:
  \<^verbatim>\<open>for (int new_duty = 0; new_duty <= PANO_LED_DUTY_CYCLE; new_duty += duty_increment)\<close>.
  The fuel bounds the number of times the body runs.
\<close>

fun ramp_up :: "nat \<Rightarrow> pano_color_t \<Rightarrow> int \<Rightarrow> int \<Rightarrow> mcu \<Rightarrow> mcu run" where
  "ramp_up 0 color inc new_duty s =
     (if new_duty \<le> PANO_LED_DUTY_CYCLE then Pending s else Done s)"
| "ramp_up (Suc fuel) color inc new_duty s =
     (if new_duty \<le> PANO_LED_DUTY_CYCLE then
        (case int_add new_duty inc of
           Inl f \<Rightarrow> Fault f
         | Inr new_duty' \<Rightarrow> ramp_up fuel color inc new_duty' (ramp_step color s new_duty))
      else Done s)"

text \<open>
  The second loop:
  \<^verbatim>\<open>for (int new_duty = PANO_LED_DUTY_CYCLE; new_duty >= 0; new_duty -= duty_increment)\<close>.
\<close>

fun ramp_down :: "nat \<Rightarrow> pano_color_t \<Rightarrow> int \<Rightarrow> int \<Rightarrow> mcu \<Rightarrow> mcu run" where
  "ramp_down 0 color dec new_duty s =
     (if new_duty \<ge> 0 then Pending s else Done s)"
| "ramp_down (Suc fuel) color dec new_duty s =
     (if new_duty \<ge> 0 then
        (case int_sub new_duty dec of
           Inl f \<Rightarrow> Fault f
         | Inr new_duty' \<Rightarrow> ramp_down fuel color dec new_duty' (ramp_step color s new_duty))
      else Done s)"

definition pano_led_pulse :: "nat \<Rightarrow> pano_color_t \<Rightarrow> u32 \<Rightarrow> u32 \<Rightarrow> mcu \<Rightarrow> mcu run" where
  "pano_led_pulse fuel color on_duration_ms off_duration_ms s =
     (case duty_increment on_duration_ms of
        Inl f \<Rightarrow> Fault f
      | Inr inc \<Rightarrow>
          (case ramp_up fuel color inc 0 s of
             Done s1 \<Rightarrow>
               (case duty_increment off_duration_ms of
                  Inl f \<Rightarrow> Fault f
                | Inr dec \<Rightarrow> ramp_down fuel color dec PANO_LED_DUTY_CYCLE s1)
           | Fault f \<Rightarrow> Fault f
           | Pending s1 \<Rightarrow> Pending s1))"

section \<open>Power state controller\<close>

text \<open>
  The sleep macros of avr-libc set the enable bit and the mode of the sleep
  controller; \<^verbatim>\<open>sleep_cpu()\<close> executes the SLEEP instruction, which does nothing
  unless sleep is enabled. The core then stays in the selected mode until an
  interrupt wakes it. The one interrupt the firmware sets up is the pin interrupt
  of the sensor, whose handler runs before execution resumes after the SLEEP.
  \<open>wake\<close> is what the environment does: \<open>Some t\<close> when the sensor interrupt arrives,
  \<open>t\<close> being the reading of the millisecond counter from then on, \<open>None\<close> when it
  never arrives.
\<close>

definition reg_write :: "reg \<Rightarrow> u8 \<Rightarrow> mcu \<Rightarrow> mcu" where
  "reg_write r v s = emit (RegWrite r v) (s\<lparr>io_reg := (io_reg s)(r := v)\<rparr>)"

text \<open>\<^verbatim>\<open>ISR(PORTA_PORT_vect)\<close>\<close>

definition PORTA_PORT_vect :: "mcu \<Rightarrow> mcu" where
  "PORTA_PORT_vect s =
     seq [reg_write PORTA_INTFLAGS 0xFF,
          (\<lambda>s. s\<lparr>start_ms := millis s\<rparr>)] s"

definition sleep_enable :: "mcu \<Rightarrow> mcu" where
  "sleep_enable s = s\<lparr>sleep_enabled := True\<rparr>"

definition sleep_disable :: "mcu \<Rightarrow> mcu" where
  "sleep_disable s = s\<lparr>sleep_enabled := False\<rparr>"

definition set_sleep_mode :: "sleep_mode_t \<Rightarrow> mcu \<Rightarrow> mcu" where
  "set_sleep_mode m s = s\<lparr>sleep_mode := m\<rparr>"

definition sleep_cpu :: "u32 option \<Rightarrow> mcu \<Rightarrow> mcu run" where
  "sleep_cpu wake s =
     (if sleep_enabled s then
        (let s' = emit (SleepCpu (sleep_mode s)) s
         in case wake of
              None \<Rightarrow> Pending s'
            | Some t \<Rightarrow> Done (PORTA_PORT_vect (s'\<lparr>clock := t\<rparr>)))
      else Done s)"

definition deep_sleep :: "u32 option \<Rightarrow> mcu \<Rightarrow> mcu run" where
  "deep_sleep wake s =
     (case sleep_cpu wake
             (seq [digitalWrite PANO_LED_R_PIN LOW,
                   digitalWrite PANO_LED_G_PIN LOW,
                   digitalWrite PANO_LED_B_PIN LOW,
                   digitalWrite HOUSE_LED_PIN LOW,
                   sleep_enable,
                   set_sleep_mode SLEEP_MODE_STANDBY] s) of
        Done s' \<Rightarrow>
          Done (seq [(\<lambda>s. s\<lparr>start_ms := millis s\<rparr>),
                     sleep_disable] s')
      | Fault f \<Rightarrow> Fault f
      | Pending s' \<Rightarrow> Pending s')"

text \<open>
  The first statement of \<^verbatim>\<open>loop()\<close>, the timeout check. \<open>pir\<close> is the level that
  \<^verbatim>\<open>digitalRead(PIR_IN)\<close> returns. The subtraction and the comparison are unsigned
  32-bit operations.
\<close>

definition power_control :: "level \<Rightarrow> u32 option \<Rightarrow> mcu \<Rightarrow> mcu run" where
  "power_control pir wake s =
     (if millis s - start_ms s > SLEEP_TIMEOUT_MS then
        (if pir = LOW then deep_sleep wake s
         else Done (s\<lparr>start_ms := millis s\<rparr>))
      else Done s)"

section \<open>Main loop\<close>

text \<open>
  The last statements of \<^verbatim>\<open>loop()\<close>:
  \<^verbatim>\<open>current_pano_color = (pano_color_t)((uint8_t)current_pano_color + 1);\<close>
  and the reset to red at \<^verbatim>\<open>PANO_COLOR_COUNT\<close>. The cast to \<^verbatim>\<open>uint8_t\<close> keeps the
  low 8 bits; the sum is computed in \<^verbatim>\<open>int\<close>.
\<close>

definition advance_color :: "mcu \<Rightarrow> mcu" where
  "advance_color s =
     (let s' = s\<lparr>current_pano_color := current_pano_color s mod 256 + 1\<rparr>
      in if current_pano_color s' = PANO_COLOR_COUNT
         then s'\<lparr>current_pano_color := PANO_COLOR_RED\<rparr>
         else s')"

definition and_then :: "'a run \<Rightarrow> ('a \<Rightarrow> 'a run) \<Rightarrow> 'a run" where
  "and_then r f = (case r of Done s \<Rightarrow> f s | Fault e \<Rightarrow> Fault e | Pending s \<Rightarrow> Pending s)"

definition loop :: "nat \<Rightarrow> level \<Rightarrow> u32 option \<Rightarrow> mcu \<Rightarrow> mcu run" where
  "loop fuel pir wake s =
     and_then (power_control pir wake s) (\<lambda>s.
     and_then (pano_led_pulse fuel (current_pano_color s) 200 200 s) (\<lambda>s.
     and_then (pano_led_pulse fuel (current_pano_color s) 200 200 s) (\<lambda>s.
     and_then (pano_led_pulse fuel (current_pano_color s) 200 200 s) (\<lambda>s.
     and_then (pano_led_pulse fuel (current_pano_color s) 100 100 s) (\<lambda>s.
     and_then (pano_led_pulse fuel (current_pano_color s) 100 100 s) (\<lambda>s.
     Done (advance_color s)))))))"

section \<open>House LED PWM controller\<close>

text \<open>
  The bit masks and the signature value used by \<^verbatim>\<open>house_led_pwm_start\<close> come from
  the device header of the toolchain, which is not part of the repository: they
  are parameters of the model.
\<close>

record iodefs =
  TCD_ENABLE_bm :: u8
  TCD_ENRDY_bm :: u8
  TCD_CMPOVR_bm :: u8
  TCD_CMPAEN_bm :: u8
  CCP_IOREG_gc :: u8

definition reg_and :: "reg \<Rightarrow> u8 \<Rightarrow> mcu \<Rightarrow> mcu" where
  "reg_and r m s = reg_write r (io_reg s r AND m) s"

definition reg_or :: "reg \<Rightarrow> u8 \<Rightarrow> mcu \<Rightarrow> mcu" where
  "reg_or r m s = reg_write r (io_reg s r OR m) s"

text \<open>
  \<^verbatim>\<open>while (!(TCD0.STATUS & TCD_ENRDY_bm)) { ; }\<close>: every test of the condition
  reads the status register, which the hardware sets. \<open>status k\<close> is the value the
  \<open>k\<close>-th read returns; the fuel bounds the number of reads.
\<close>

fun wait_enrdy :: "iodefs \<Rightarrow> (nat \<Rightarrow> u8) \<Rightarrow> nat \<Rightarrow> nat \<Rightarrow> mcu \<Rightarrow> mcu run" where
  "wait_enrdy io status 0 k s = Pending s"
| "wait_enrdy io status (Suc fuel) k s =
     (let s' = emit (RegRead TCD0_STATUS (status k)) s
      in if status k AND TCD_ENRDY_bm io = 0
         then wait_enrdy io status fuel (Suc k) s'
         else Done s')"

definition house_led_pwm_start :: "iodefs \<Rightarrow> (nat \<Rightarrow> u8) \<Rightarrow> nat \<Rightarrow> mcu \<Rightarrow> mcu run" where
  "house_led_pwm_start io status fuel s =
     (case wait_enrdy io status fuel 0
             (seq [reg_and TCD0_CTRLC (NOT (TCD_CMPOVR_bm io)),
                   reg_write CPU_CCP (CCP_IOREG_gc io),
                   reg_write TCD0_FAULTCTRL (TCD_CMPAEN_bm io)] s) of
        Done s' \<Rightarrow> Done (reg_or TCD0_CTRLA (TCD_ENABLE_bm io) s')
      | Fault f \<Rightarrow> Fault f
      | Pending s' \<Rightarrow> Pending s')"

text \<open>
  The state after reset, for concrete runs: C zero-initialises the two globals, the
  pins are low, the sleep controller is disabled in idle mode, nothing is logged.
\<close>

definition reset_state :: mcu where
  "reset_state =
     \<lparr>start_ms = 0, current_pano_color = 0, clock = 0,
      pin_out = (\<lambda>p. Level LOW), sleep_enabled = False,
      sleep_mode = SLEEP_MODE_IDLE, io_reg = (\<lambda>r. 0), log = []\<rparr>"

text \<open>The events a run added to the log, and the duty values of the logged calls.\<close>

definition emitted :: "mcu \<Rightarrow> mcu \<Rightarrow> event list" where
  "emitted s s' = drop (length (log s)) (log s')"

fun duties :: "event list \<Rightarrow> u8 list" where
  "duties [] = []"
| "duties (Call_pano_led_write c d # es) = d # duties es"
| "duties (e # es) = duties es"

section \<open>Basic facts about the primitives\<close>

lemmas prim_defs = emit_def seq_def analogWrite_def digitalWrite_def delay_def millis_def
  reg_write_def sleep_enable_def sleep_disable_def set_sleep_mode_def

lemma pano_led_write_pin_out:
  "pin_out (pano_led_write color d s) =
     (pin_out s)
       (PANO_LED_R_PIN :=
          (if color = PANO_COLOR_RED \<or> color = PANO_COLOR_BROWN \<or> color = PANO_COLOR_YELLOW
           then Pwm d else Level LOW),
        PANO_LED_G_PIN :=
          (if color = PANO_COLOR_GREEN \<or> color = PANO_COLOR_BROWN \<or> color = PANO_COLOR_CYAN
           then Pwm d else Level LOW),
        PANO_LED_B_PIN :=
          (if color = PANO_COLOR_BLUE \<or> color = PANO_COLOR_CYAN \<or> color = PANO_COLOR_YELLOW
           then Pwm d else Level LOW))"
  unfolding pano_led_write_def
  by (simp add: prim_defs fun_upd_twist)

lemma advance_color_eq:
  "advance_color s =
     s\<lparr>current_pano_color :=
          (if current_pano_color s mod 256 = 5 then 0 else current_pano_color s mod 256 + 1)\<rparr>"
  by (simp add: advance_color_def Let_def)

lemma advance_color_6:
  assumes "current_pano_color s = c"
    and "c = 0 \<or> c = 1 \<or> c = 2 \<or> c = 3 \<or> c = 4 \<or> c = 5"
  shows "(advance_color ^^ 6) s = s"
proof -
  have six: "(advance_color ^^ 6) s =
      advance_color (advance_color (advance_color (advance_color (advance_color (advance_color s)))))"
    by (simp add: eval_nat_numeral)
  have same: "s\<lparr>current_pano_color := c\<rparr> = s"
    unfolding assms(1) [symmetric] by simp
  have "(advance_color ^^ 6) s = s\<lparr>current_pano_color := c\<rparr>"
    unfolding six using assms by (elim disjE) (simp_all add: advance_color_eq)
  with same show ?thesis by simp
qed

lemma advance_color_order:
  "map (\<lambda>k. current_pano_color ((advance_color ^^ k) (s\<lparr>current_pano_color := PANO_COLOR_RED\<rparr>)))
       [0, 1, 2, 3, 4, 5, 6]
     = [PANO_COLOR_RED, PANO_COLOR_GREEN, PANO_COLOR_BLUE, PANO_COLOR_BROWN,
        PANO_COLOR_CYAN, PANO_COLOR_YELLOW, PANO_COLOR_RED]"
  by (simp add: eval_nat_numeral advance_color_eq)

subsection \<open>The log\<close>

lemma duties_append: "duties (xs @ ys) = duties xs @ duties ys"
  by (induction xs rule: duties.induct) simp_all

lemma log_pano_led_write:
  "\<exists>es. log (pano_led_write c d s) = log s @ Call_pano_led_write c d # es \<and> duties es = []"
  unfolding pano_led_write_def by (simp add: prim_defs)

lemma log_ramp_step:
  "\<exists>es. log (ramp_step c s nd) = log s @ es \<and> duties es = [uint8_of_int nd]"
proof -
  obtain es where "log (pano_led_write c (uint8_of_int nd) s)
      = log s @ Call_pano_led_write c (uint8_of_int nd) # es" "duties es = []"
    using log_pano_led_write by blast
  then have "log (ramp_step c s nd) = log s @ (Call_pano_led_write c (uint8_of_int nd) # es @ [Delay 10])
       \<and> duties (Call_pano_led_write c (uint8_of_int nd) # es @ [Delay 10]) = [uint8_of_int nd]"
    by (simp add: ramp_step_def seq_def delay_def emit_def duties_append)
  then show ?thesis by blast
qed

lemma emitted_append: "log s' = log s @ es \<Longrightarrow> emitted s s' = es"
  by (simp add: emitted_def)

lemma log_foldl_ramp_step:
  "\<exists>es. log (foldl (ramp_step c) s ds) = log s @ es \<and> duties es = map uint8_of_int ds"
proof (induction ds arbitrary: s)
  case Nil
  then show ?case by simp
next
  case (Cons d ds)
  obtain es0 where es0: "log (ramp_step c s d) = log s @ es0" "duties es0 = [uint8_of_int d]"
    using log_ramp_step by blast
  obtain es where es: "log (foldl (ramp_step c) (ramp_step c s d) ds) = log (ramp_step c s d) @ es"
      "duties es = map uint8_of_int ds"
    using Cons.IH by blast
  have "log (foldl (ramp_step c) s (d # ds)) = log s @ (es0 @ es)
      \<and> duties (es0 @ es) = map uint8_of_int (d # ds)"
    using es0 es by (simp add: duties_append)
  then show ?case by blast
qed

subsection \<open>Step count and duty increment\<close>

lemma steps_eq: "steps d = signed_take_bit 15 (int (unat d div 10))"
proof -
  have "uint (d div 10) = int (unat d div 10)"
    by (simp add: uint_div zdiv_int)
  then show ?thesis
    by (simp add: steps_def int_of_u32_def signed_ucast_eq)
qed

lemma steps_exact: "unat d < 327680 \<Longrightarrow> steps d = int (unat d div 10)"
proof -
  assume "unat d < 327680"
  then have "int (unat d div 10) < 2 ^ 15" by simp
  then show ?thesis
    unfolding steps_eq by (intro signed_take_bit_int_eq_self) simp_all
qed

lemma steps_small: "unat d < 10 \<Longrightarrow> steps d = 0"
  by (simp add: steps_exact)

lemma div_abs_70: "0 \<le> (70::int) div \<bar>b\<bar> \<and> (70::int) div \<bar>b\<bar> \<le> 70"
proof -
  obtain n where n: "\<bar>b\<bar> = int n"
    using nonneg_int_cases [of "\<bar>b\<bar>"] by auto
  have "(70::int) div int n = int (70 div n)"
    by (simp add: zdiv_int)
  moreover have "70 div n \<le> 70"
    by (rule div_le_dividend)
  ultimately show ?thesis
    unfolding n by simp
qed

lemma sdiv_70_range: "- 70 \<le> (70::int) sdiv b \<and> (70::int) sdiv b \<le> 70"
  using div_abs_70 [of b]
  by (cases "b = 0"; cases "0 < b") (simp_all add: signed_divide_int_def sgn_if)

lemma duty_increment_eq:
  "duty_increment d = (if steps d = 0 then Inl DivByZero else Inr (70 sdiv steps d))"
  using sdiv_70_range [of "steps d"] by (simp add: duty_increment_def int_div_def)

lemma duty_increment_zero: "70 < steps d \<Longrightarrow> duty_increment d = Inr 0"
  by (simp add: duty_increment_eq signed_divide_int_def)

lemma duty_increment_range: "duty_increment d = Inr i \<Longrightarrow> - 70 \<le> i \<and> i \<le> 70"
  using sdiv_70_range [of "steps d"] by (auto simp add: duty_increment_eq split: if_splits)

lemma uint8_of_int_le: "0 \<le> n \<Longrightarrow> n \<le> 70 \<Longrightarrow> unat (uint8_of_int n) \<le> 70"
  by (simp add: uint8_of_int_def unat_eq_nat_uint uint_word_of_int)

lemma duty_increment_200: "duty_increment 200 = Inr 3"
  by (simp add: duty_increment_eq steps_exact signed_divide_int_def)

subsection \<open>The two ramps\<close>

lemma int_add_ok: "- 70 \<le> a \<Longrightarrow> a \<le> 70 \<Longrightarrow> - 70 \<le> b \<Longrightarrow> b \<le> 70 \<Longrightarrow> int_add a b = Inr (a + b)"
  by (simp add: int_add_def)

lemma int_sub_ok: "- 70 \<le> a \<Longrightarrow> a \<le> 70 \<Longrightarrow> - 70 \<le> b \<Longrightarrow> b \<le> 70 \<Longrightarrow> int_sub a b = Inr (a - b)"
  by (simp add: int_sub_def)

lemma ramp_up_bounded:
  assumes "0 < inc" and "inc \<le> 70"
  shows "0 \<le> nd \<Longrightarrow>
    \<exists>s' es. (ramp_up fuel c inc nd s = Done s' \<or> ramp_up fuel c inc nd s = Pending s')
       \<and> log s' = log s @ es \<and> (\<forall>d\<in>set (duties es). unat d \<le> 70)"
proof (induction fuel arbitrary: nd s)
  case 0
  then show ?case by simp
next
  case (Suc fuel)
  show ?case
  proof (cases "nd \<le> 70")
    case False
    then show ?thesis by simp
  next
    case True
    with Suc.prems assms have add: "int_add nd inc = Inr (nd + inc)"
      by (intro int_add_ok) simp_all
    obtain es0 where es0: "log (ramp_step c s nd) = log s @ es0" "duties es0 = [uint8_of_int nd]"
      using log_ramp_step by blast
    from Suc.prems assms have "0 \<le> nd + inc" by simp
    from Suc.IH [OF this, of "ramp_step c s nd"]
    obtain s' es where r: "ramp_up fuel c inc (nd + inc) (ramp_step c s nd) = Done s'
         \<or> ramp_up fuel c inc (nd + inc) (ramp_step c s nd) = Pending s'"
      and l: "log s' = log (ramp_step c s nd) @ es"
      and d: "\<forall>d\<in>set (duties es). unat d \<le> 70"
      by blast
    have "unat (uint8_of_int nd) \<le> 70"
      using Suc.prems True by (rule uint8_of_int_le)
    with d es0 have "\<forall>d\<in>set (duties (es0 @ es)). unat d \<le> 70"
      by (simp add: duties_append)
    moreover have "log s' = log s @ (es0 @ es)"
      using l es0 by simp
    moreover have "ramp_up (Suc fuel) c inc nd s = Done s' \<or> ramp_up (Suc fuel) c inc nd s = Pending s'"
      using r True add by simp
    ultimately show ?thesis by blast
  qed
qed

lemma ramp_down_bounded:
  assumes "0 < dec" and "dec \<le> 70"
  shows "nd \<le> 70 \<Longrightarrow>
    \<exists>s' es. (ramp_down fuel c dec nd s = Done s' \<or> ramp_down fuel c dec nd s = Pending s')
       \<and> log s' = log s @ es \<and> (\<forall>d\<in>set (duties es). unat d \<le> 70)"
proof (induction fuel arbitrary: nd s)
  case 0
  then show ?case by simp
next
  case (Suc fuel)
  show ?case
  proof (cases "0 \<le> nd")
    case False
    then show ?thesis by simp
  next
    case True
    with Suc.prems assms have sub: "int_sub nd dec = Inr (nd - dec)"
      by (intro int_sub_ok) simp_all
    obtain es0 where es0: "log (ramp_step c s nd) = log s @ es0" "duties es0 = [uint8_of_int nd]"
      using log_ramp_step by blast
    from Suc.prems assms have "nd - dec \<le> 70" by simp
    from Suc.IH [OF this, of "ramp_step c s nd"]
    obtain s' es where r: "ramp_down fuel c dec (nd - dec) (ramp_step c s nd) = Done s'
         \<or> ramp_down fuel c dec (nd - dec) (ramp_step c s nd) = Pending s'"
      and l: "log s' = log (ramp_step c s nd) @ es"
      and d: "\<forall>d\<in>set (duties es). unat d \<le> 70"
      by blast
    have "unat (uint8_of_int nd) \<le> 70"
      using True Suc.prems by (rule uint8_of_int_le)
    with d es0 have "\<forall>d\<in>set (duties (es0 @ es)). unat d \<le> 70"
      by (simp add: duties_append)
    moreover have "log s' = log s @ (es0 @ es)"
      using l es0 by simp
    moreover have "ramp_down (Suc fuel) c dec nd s = Done s' \<or> ramp_down (Suc fuel) c dec nd s = Pending s'"
      using r True sub by simp
    ultimately show ?thesis by blast
  qed
qed

lemma ramp_up_iter:
  assumes "0 < inc" and "inc \<le> 70"
  shows "0 \<le> nd \<Longrightarrow> (\<forall>k<m. nd + int k * inc \<le> 70) \<Longrightarrow> 70 < nd + int m * inc \<Longrightarrow> m \<le> fuel \<Longrightarrow>
     ramp_up fuel c inc nd s = Done (foldl (ramp_step c) s (map (\<lambda>k. nd + int k * inc) [0..<m]))"
proof (induction m arbitrary: fuel nd s)
  case 0
  then show ?case by (cases fuel) simp_all
next
  case (Suc m)
  from Suc.prems(2) have le: "nd \<le> 70" by fastforce
  obtain fuel' where fuel: "fuel = Suc fuel'" "m \<le> fuel'"
    using Suc.prems(4) by (cases fuel) simp_all
  from le Suc.prems(1) assms have add: "int_add nd inc = Inr (nd + inc)"
    by (intro int_add_ok) simp_all
  have a: "0 \<le> nd + inc" using Suc.prems(1) assms by simp
  have b: "\<forall>k<m. nd + inc + int k * inc \<le> 70"
  proof (intro allI impI)
    fix k assume "k < m"
    then have "Suc k < Suc m" by simp
    with Suc.prems(2) have "nd + int (Suc k) * inc \<le> 70" by blast
    then show "nd + inc + int k * inc \<le> 70" by (simp add: algebra_simps)
  qed
  have c: "70 < nd + inc + int m * inc"
    using Suc.prems(3) by (simp add: algebra_simps)
  have "ramp_up fuel' c inc (nd + inc) (ramp_step c s nd)
      = Done (foldl (ramp_step c) (ramp_step c s nd) (map (\<lambda>k. nd + inc + int k * inc) [0..<m]))"
    by (rule Suc.IH [OF a b c fuel(2)])
  moreover have "map (\<lambda>k. nd + int k * inc) [0..<Suc m]
      = nd # map (\<lambda>k. nd + inc + int k * inc) [0..<m]"
    by (simp add: map_upt_Suc algebra_simps del: upt_Suc)
  ultimately show ?case
    using le add fuel(1) by (simp del: upt_Suc)
qed

lemma ramp_down_iter:
  assumes "0 < dec" and "dec \<le> 70"
  shows "nd \<le> 70 \<Longrightarrow> (\<forall>k<m. 0 \<le> nd - int k * dec) \<Longrightarrow> nd - int m * dec < 0 \<Longrightarrow> m \<le> fuel \<Longrightarrow>
     ramp_down fuel c dec nd s = Done (foldl (ramp_step c) s (map (\<lambda>k. nd - int k * dec) [0..<m]))"
proof (induction m arbitrary: fuel nd s)
  case 0
  then show ?case by (cases fuel) simp_all
next
  case (Suc m)
  from Suc.prems(2) have ge: "0 \<le> nd" by fastforce
  obtain fuel' where fuel: "fuel = Suc fuel'" "m \<le> fuel'"
    using Suc.prems(4) by (cases fuel) simp_all
  from ge Suc.prems(1) assms have sub: "int_sub nd dec = Inr (nd - dec)"
    by (intro int_sub_ok) simp_all
  have a: "nd - dec \<le> 70" using Suc.prems(1) assms by simp
  have b: "\<forall>k<m. 0 \<le> nd - dec - int k * dec"
  proof (intro allI impI)
    fix k assume "k < m"
    then have "Suc k < Suc m" by simp
    with Suc.prems(2) have "0 \<le> nd - int (Suc k) * dec" by blast
    then show "0 \<le> nd - dec - int k * dec" by (simp add: algebra_simps)
  qed
  have c: "nd - dec - int m * dec < 0"
    using Suc.prems(3) by (simp add: algebra_simps)
  have "ramp_down fuel' c dec (nd - dec) (ramp_step c s nd)
      = Done (foldl (ramp_step c) (ramp_step c s nd) (map (\<lambda>k. nd - dec - int k * dec) [0..<m]))"
    by (rule Suc.IH [OF a b c fuel(2)])
  moreover have "map (\<lambda>k. nd - int k * dec) [0..<Suc m]
      = nd # map (\<lambda>k. nd - dec - int k * dec) [0..<m]"
    by (simp add: map_upt_Suc algebra_simps del: upt_Suc)
  ultimately show ?case
    using ge sub fuel(1) by (simp del: upt_Suc)
qed

lemma ramp_up_hold:
  "- 70 \<le> nd \<Longrightarrow> nd \<le> 70 \<Longrightarrow>
     ramp_up fuel c 0 nd s = Pending (foldl (ramp_step c) s (replicate fuel nd))"
proof (induction fuel arbitrary: s)
  case 0
  then show ?case by simp
next
  case (Suc fuel)
  then show ?case by (simp add: int_add_def)
qed

lemma ramp_down_hold:
  "0 \<le> nd \<Longrightarrow> nd \<le> 70 \<Longrightarrow>
     ramp_down fuel c 0 nd s = Pending (foldl (ramp_step c) s (replicate fuel nd))"
proof (induction fuel arbitrary: s)
  case 0
  then show ?case by simp
next
  case (Suc fuel)
  then show ?case by (simp add: int_sub_def)
qed

lemma ramp_up_returns:
  assumes "0 < inc" and "inc \<le> 70"
  shows "0 \<le> nd \<Longrightarrow> 71 \<le> nd + int fuel \<Longrightarrow> \<exists>s'. ramp_up fuel c inc nd s = Done s'"
proof (induction fuel arbitrary: nd s)
  case 0
  then show ?case by simp
next
  case (Suc fuel)
  show ?case
  proof (cases "nd \<le> 70")
    case False
    then show ?thesis by simp
  next
    case True
    with Suc.prems assms have add: "int_add nd inc = Inr (nd + inc)"
      by (intro int_add_ok) simp_all
    have "\<exists>s'. ramp_up fuel c inc (nd + inc) (ramp_step c s nd) = Done s'"
      using Suc.prems assms by (intro Suc.IH) simp_all
    with True add show ?thesis by simp
  qed
qed

lemma ramp_down_returns:
  assumes "0 < dec" and "dec \<le> 70"
  shows "nd \<le> 70 \<Longrightarrow> nd < int fuel \<Longrightarrow> \<exists>s'. ramp_down fuel c dec nd s = Done s'"
proof (induction fuel arbitrary: nd s)
  case 0
  then show ?case by simp
next
  case (Suc fuel)
  show ?case
  proof (cases "0 \<le> nd")
    case False
    then show ?thesis by simp
  next
    case True
    with Suc.prems assms have sub: "int_sub nd dec = Inr (nd - dec)"
      by (intro int_sub_ok) simp_all
    have "\<exists>s'. ramp_down fuel c dec (nd - dec) (ramp_step c s nd) = Done s'"
      using Suc.prems assms by (intro Suc.IH) simp_all
    with True sub show ?thesis by simp
  qed
qed

lemma up_200: "map (\<lambda>k. 0 + int k * 3) [0..<24]
   = [0, 3, 6, 9, 12, 15, 18, 21, 24, 27, 30, 33, 36, 39, 42, 45, 48, 51, 54, 57, 60, 63, 66, 69]"
  by (simp add: upt_rec)

lemma down_200: "map (\<lambda>k. 70 - int k * 3) [0..<24]
   = [70, 67, 64, 61, 58, 55, 52, 49, 46, 43, 40, 37, 34, 31, 28, 25, 22, 19, 16, 13, 10, 7, 4, 1]"
  by (simp add: upt_rec)

lemma ramp_up_200:
  "ramp_up (24 + n) c 3 0 s = Done (foldl (ramp_step c) s
     [0, 3, 6, 9, 12, 15, 18, 21, 24, 27, 30, 33, 36, 39, 42, 45, 48, 51, 54, 57, 60, 63, 66, 69])"
proof -
  have "\<forall>k<24. 0 + int k * 3 \<le> 70" by auto
  then have "ramp_up (24 + n) c 3 0 s = Done (foldl (ramp_step c) s (map (\<lambda>k. 0 + int k * 3) [0..<24]))"
    by (intro ramp_up_iter) simp_all
  then show ?thesis unfolding up_200 .
qed

lemma ramp_down_200:
  "ramp_down (24 + n) c 3 70 s = Done (foldl (ramp_step c) s
     [70, 67, 64, 61, 58, 55, 52, 49, 46, 43, 40, 37, 34, 31, 28, 25, 22, 19, 16, 13, 10, 7, 4, 1])"
proof -
  have "\<forall>k<24. 0 \<le> 70 - int k * 3" by auto
  then have "ramp_down (24 + n) c 3 70 s = Done (foldl (ramp_step c) s (map (\<lambda>k. 70 - int k * 3) [0..<24]))"
    by (intro ramp_down_iter) simp_all
  then show ?thesis unfolding down_200 .
qed

lemma steps_655350: "steps 655350 = - 1"
  by (simp add: steps_eq)

lemma di_655350: "duty_increment 655350 = Inr (- 70)"
  by (simp add: duty_increment_eq steps_655350)

lemma up_705: "map (\<lambda>k. 0 + int k * 1) [0..<71] = map int [0..<71]"
  by simp

lemma down_705: "map (\<lambda>k. 70 - int k * 1) [0..<71] = rev (map int [0..<71])"
  by (simp add: upt_rec)

subsection \<open>The enable-ready wait\<close>

lemma wait_enrdy_ready:
  "n < fuel \<Longrightarrow> (\<forall>i<n. status (k + i) AND TCD_ENRDY_bm io = 0) \<Longrightarrow>
   status (k + n) AND TCD_ENRDY_bm io \<noteq> 0 \<Longrightarrow>
   wait_enrdy io status fuel k s =
     Done (s\<lparr>log := log s @ map (\<lambda>i. RegRead TCD0_STATUS (status (k + i))) [0..<Suc n]\<rparr>)"
proof (induction n arbitrary: fuel k s)
  case 0
  then obtain fuel' where "fuel = Suc fuel'" by (cases fuel) simp_all
  with 0 show ?case by (simp add: emit_def)
next
  case (Suc n)
  obtain fuel' where fuel: "fuel = Suc fuel'" "n < fuel'"
    using Suc.prems(1) by (cases fuel) simp_all
  from Suc.prems(2) have now: "status k AND TCD_ENRDY_bm io = 0" by fastforce
  have a: "\<forall>i<n. status (Suc k + i) AND TCD_ENRDY_bm io = 0"
    using Suc.prems(2) by fastforce
  have b: "status (Suc k + n) AND TCD_ENRDY_bm io \<noteq> 0"
    using Suc.prems(3) by simp
  have "wait_enrdy io status fuel' (Suc k) (emit (RegRead TCD0_STATUS (status k)) s)
     = Done ((emit (RegRead TCD0_STATUS (status k)) s)
          \<lparr>log := log (emit (RegRead TCD0_STATUS (status k)) s)
                  @ map (\<lambda>i. RegRead TCD0_STATUS (status (Suc k + i))) [0..<Suc n]\<rparr>)"
    by (rule Suc.IH [OF fuel(2) a b])
  moreover have "map (\<lambda>i. RegRead TCD0_STATUS (status (k + i))) [0..<Suc (Suc n)]
     = RegRead TCD0_STATUS (status k) # map (\<lambda>i. RegRead TCD0_STATUS (status (Suc k + i))) [0..<Suc n]"
    by (simp add: map_upt_Suc del: upt_Suc)
  ultimately show ?case
    using now fuel(1) by (simp add: emit_def del: upt_Suc)
qed

lemma wait_enrdy_never:
  "(\<forall>i<fuel. status (k + i) AND TCD_ENRDY_bm io = 0) \<Longrightarrow>
   wait_enrdy io status fuel k s =
     Pending (s\<lparr>log := log s @ map (\<lambda>i. RegRead TCD0_STATUS (status (k + i))) [0..<fuel]\<rparr>)"
proof (induction fuel arbitrary: k s)
  case 0
  then show ?case by simp
next
  case (Suc fuel)
  from Suc.prems have now: "status k AND TCD_ENRDY_bm io = 0" by fastforce
  have a: "\<forall>i<fuel. status (Suc k + i) AND TCD_ENRDY_bm io = 0"
    using Suc.prems by fastforce
  have "wait_enrdy io status fuel (Suc k) (emit (RegRead TCD0_STATUS (status k)) s)
     = Pending ((emit (RegRead TCD0_STATUS (status k)) s)
          \<lparr>log := log (emit (RegRead TCD0_STATUS (status k)) s)
                  @ map (\<lambda>i. RegRead TCD0_STATUS (status (Suc k + i))) [0..<fuel]\<rparr>)"
    by (rule Suc.IH [OF a])
  moreover have "map (\<lambda>i. RegRead TCD0_STATUS (status (k + i))) [0..<Suc fuel]
     = RegRead TCD0_STATUS (status k) # map (\<lambda>i. RegRead TCD0_STATUS (status (Suc k + i))) [0..<fuel]"
    by (simp add: map_upt_Suc del: upt_Suc)
  ultimately show ?case
    using now by (simp add: emit_def del: upt_Suc)
qed

lemma first_ready:
  fixes fuel :: nat and status :: "nat \<Rightarrow> u8"
  shows "(\<exists>n<fuel. (\<forall>i<n. status i AND m = 0) \<and> status n AND m \<noteq> 0)
     \<or> (\<forall>i<fuel. status i AND m = 0)"
proof (cases "\<forall>i<fuel. status i AND m = 0")
  case True
  then show ?thesis by blast
next
  case False
  then have ex: "\<exists>n. n < fuel \<and> status n AND m \<noteq> 0" by blast
  define n where "n = (LEAST n. n < fuel \<and> status n AND m \<noteq> 0)"
  have "n < fuel \<and> status n AND m \<noteq> 0"
    unfolding n_def
    using LeastI_ex [of "\<lambda>n. n < fuel \<and> status n AND m \<noteq> 0"] ex by blast
  moreover have "\<forall>i<n. status i AND m = 0"
  proof (intro allI impI)
    fix i assume "i < n"
    then have "\<not> (i < fuel \<and> status i AND m \<noteq> 0)"
      unfolding n_def
      using not_less_Least [of i "\<lambda>n. n < fuel \<and> status n AND m \<noteq> 0"] by blast
    moreover have "i < fuel" using \<open>i < n\<close> \<open>n < fuel \<and> status n AND m \<noteq> 0\<close> by simp
    ultimately show "status i AND m = 0" by blast
  qed
  ultimately show ?thesis by blast
qed

section \<open>Pano LED driver: the channels of each colour\<close>

text \<open>
  Claim C3. For every duty cycle \<open>d\<close>, every colour value and every state,
  \<^verbatim>\<open>pano_led_write\<close> leaves the three channels (red, green, blue, in this order) as
  follows: red, green and blue put the duty on their own channel and force the two
  others low; brown puts the same duty on red and green, cyan on green and blue,
  yellow on red and blue, each forcing the third channel low; every value that is
  none of the six colours forces all three channels low. The house LED pin and the
  sensor pin are not touched.
\<close>

theorem pano_led_write_channels:
  "(color = PANO_COLOR_RED \<longrightarrow>
      map (pin_out (pano_led_write color d s)) [PANO_LED_R_PIN, PANO_LED_G_PIN, PANO_LED_B_PIN]
        = [Pwm d, Level LOW, Level LOW])
 \<and> (color = PANO_COLOR_GREEN \<longrightarrow>
      map (pin_out (pano_led_write color d s)) [PANO_LED_R_PIN, PANO_LED_G_PIN, PANO_LED_B_PIN]
        = [Level LOW, Pwm d, Level LOW])
 \<and> (color = PANO_COLOR_BLUE \<longrightarrow>
      map (pin_out (pano_led_write color d s)) [PANO_LED_R_PIN, PANO_LED_G_PIN, PANO_LED_B_PIN]
        = [Level LOW, Level LOW, Pwm d])
 \<and> (color = PANO_COLOR_BROWN \<longrightarrow>
      map (pin_out (pano_led_write color d s)) [PANO_LED_R_PIN, PANO_LED_G_PIN, PANO_LED_B_PIN]
        = [Pwm d, Pwm d, Level LOW])
 \<and> (color = PANO_COLOR_CYAN \<longrightarrow>
      map (pin_out (pano_led_write color d s)) [PANO_LED_R_PIN, PANO_LED_G_PIN, PANO_LED_B_PIN]
        = [Level LOW, Pwm d, Pwm d])
 \<and> (color = PANO_COLOR_YELLOW \<longrightarrow>
      map (pin_out (pano_led_write color d s)) [PANO_LED_R_PIN, PANO_LED_G_PIN, PANO_LED_B_PIN]
        = [Pwm d, Level LOW, Pwm d])
 \<and> (color \<notin> {PANO_COLOR_RED, PANO_COLOR_GREEN, PANO_COLOR_BLUE,
               PANO_COLOR_BROWN, PANO_COLOR_CYAN, PANO_COLOR_YELLOW} \<longrightarrow>
      map (pin_out (pano_led_write color d s)) [PANO_LED_R_PIN, PANO_LED_G_PIN, PANO_LED_B_PIN]
        = [Level LOW, Level LOW, Level LOW])
 \<and> pin_out (pano_led_write color d s) HOUSE_LED_PIN = pin_out s HOUSE_LED_PIN
 \<and> pin_out (pano_led_write color d s) PIR_IN = pin_out s PIR_IN"
  by (simp add: pano_led_write_pin_out)

theorem pano_led_write_channels_witness:
  "map (pin_out (pano_led_write PANO_COLOR_CYAN 70 reset_state))
       [PANO_LED_R_PIN, PANO_LED_G_PIN, PANO_LED_B_PIN] = [Level LOW, Pwm 70, Pwm 70]
 \<and> map (pin_out (pano_led_write PANO_COLOR_COUNT 70 reset_state))
       [PANO_LED_R_PIN, PANO_LED_G_PIN, PANO_LED_B_PIN] = [Level LOW, Level LOW, Level LOW]"
  using pano_led_write_channels [of PANO_COLOR_CYAN 70 reset_state]
        pano_led_write_channels [of PANO_COLOR_COUNT 70 reset_state]
  by simp

section \<open>Power state controller: the three cases of the timeout check\<close>

text \<open>
  Claim C5. When the time elapsed since \<open>start_ms\<close> (the unsigned 32-bit difference
  \<^verbatim>\<open>millis() - start_ms\<close>) is at most 15 minutes, the timeout check of the main loop
  returns the state it was given: \<open>start_ms\<close>, the sleep controller, the pins and
  the log are all unchanged, whatever the sensor reads.
\<close>

theorem power_control_within_timeout:
  "unat (millis s - start_ms s) \<le> 15 * 60 * 1000 \<Longrightarrow> power_control pir wake s = Done s"
  by (simp add: power_control_def word_less_nat_alt)

theorem power_control_within_timeout_witness:
  "unat (millis (reset_state\<lparr>clock := 900000\<rparr>) - start_ms (reset_state\<lparr>clock := 900000\<rparr>))
     \<le> 15 * 60 * 1000
 \<and> power_control LOW None (reset_state\<lparr>clock := 900000\<rparr>)
     = Done (reset_state\<lparr>clock := 900000\<rparr>)"
  using power_control_within_timeout [of "reset_state\<lparr>clock := 900000\<rparr>" LOW None]
  by (simp add: reset_state_def millis_def)

text \<open>
  Claim C6. When more than 15 minutes have elapsed since \<open>start_ms\<close> and the sensor
  pin reads high, the timeout check returns with \<open>start_ms\<close> set to the current
  reading of \<^verbatim>\<open>millis()\<close> and nothing else changed: no pin is written, nothing is
  logged, the sleep transition is not entered.
\<close>

theorem power_control_refresh:
  "unat (millis s - start_ms s) > 15 * 60 * 1000 \<Longrightarrow> pir = HIGH \<Longrightarrow>
     power_control pir wake s = Done (s\<lparr>start_ms := millis s\<rparr>)"
  by (simp add: power_control_def word_less_nat_alt)

theorem power_control_refresh_witness:
  "unat (millis (reset_state\<lparr>clock := 900001\<rparr>) - start_ms (reset_state\<lparr>clock := 900001\<rparr>))
     > 15 * 60 * 1000
 \<and> power_control HIGH None (reset_state\<lparr>clock := 900001\<rparr>)
     = Done (reset_state\<lparr>clock := 900001, start_ms := 900001\<rparr>)"
  using power_control_refresh [of "reset_state\<lparr>clock := 900001\<rparr>" HIGH None]
  by (simp add: reset_state_def millis_def)

text \<open>
  Claim C2. When more than 15 minutes have elapsed since \<open>start_ms\<close> and the sensor
  pin reads low, the timeout check writes low to the three pano LED pins and to the
  house LED pin, in this order, and executes SLEEP with the sleep controller enabled
  in standby mode. If the sensor interrupt never comes, the call does not return and
  the four pins stay low. If it comes, its handler runs (it clears the interrupt
  flags), the call returns with \<open>start_ms\<close> equal to the reading of \<^verbatim>\<open>millis()\<close> at
  that time, the four pins still low and sleep disabled again.
\<close>

theorem power_control_sleep:
  assumes "unat (millis s - start_ms s) > 15 * 60 * 1000" and "pir = LOW"
  shows "(\<exists>s'. power_control pir None s = Pending s'
            \<and> emitted s s' =
                [DigitalWrite PANO_LED_R_PIN LOW, DigitalWrite PANO_LED_G_PIN LOW,
                 DigitalWrite PANO_LED_B_PIN LOW, DigitalWrite HOUSE_LED_PIN LOW,
                 SleepCpu SLEEP_MODE_STANDBY]
            \<and> map (pin_out s') [PANO_LED_R_PIN, PANO_LED_G_PIN, PANO_LED_B_PIN, HOUSE_LED_PIN]
                = [Level LOW, Level LOW, Level LOW, Level LOW])
       \<and> (\<exists>s'. power_control pir (Some t) s = Done s'
            \<and> emitted s s' =
                [DigitalWrite PANO_LED_R_PIN LOW, DigitalWrite PANO_LED_G_PIN LOW,
                 DigitalWrite PANO_LED_B_PIN LOW, DigitalWrite HOUSE_LED_PIN LOW,
                 SleepCpu SLEEP_MODE_STANDBY, RegWrite PORTA_INTFLAGS 0xFF]
            \<and> map (pin_out s') [PANO_LED_R_PIN, PANO_LED_G_PIN, PANO_LED_B_PIN, HOUSE_LED_PIN]
                = [Level LOW, Level LOW, Level LOW, Level LOW]
            \<and> millis s' = t \<and> start_ms s' = millis s' \<and> \<not> sleep_enabled s')"
  using assms
  by (simp add: power_control_def deep_sleep_def sleep_cpu_def PORTA_PORT_vect_def prim_defs
        emitted_def word_less_nat_alt Let_def)

theorem power_control_sleep_witness:
  "unat (millis (reset_state\<lparr>clock := 900001\<rparr>) - start_ms (reset_state\<lparr>clock := 900001\<rparr>))
     > 15 * 60 * 1000
 \<and> (\<exists>s'. power_control LOW (Some 1000000) (reset_state\<lparr>clock := 900001\<rparr>) = Done s'
        \<and> map (pin_out s') [PANO_LED_R_PIN, PANO_LED_G_PIN, PANO_LED_B_PIN, HOUSE_LED_PIN]
                = [Level LOW, Level LOW, Level LOW, Level LOW]
        \<and> start_ms s' = 1000000)"
proof -
  have h: "unat (millis (reset_state\<lparr>clock := 900001\<rparr>) - start_ms (reset_state\<lparr>clock := 900001\<rparr>))
     > 15 * 60 * 1000"
    by (simp add: reset_state_def millis_def)
  from power_control_sleep [OF h refl, of 1000000]
  show ?thesis using h by auto
qed

section \<open>Main loop: the colour cycle\<close>

text \<open>
  Claim C7. From any state whose current colour is one of the six colours, six
  applications of the colour-advance step of the main loop give the state back; and
  starting from red the step visits red, green, blue, brown, cyan, yellow and then
  red again.
\<close>

theorem advance_color_cycle:
  "(current_pano_color s \<in> {PANO_COLOR_RED, PANO_COLOR_GREEN, PANO_COLOR_BLUE,
        PANO_COLOR_BROWN, PANO_COLOR_CYAN, PANO_COLOR_YELLOW} \<longrightarrow>
      (advance_color ^^ 6) s = s)
 \<and> map (\<lambda>k. current_pano_color ((advance_color ^^ k) (s\<lparr>current_pano_color := PANO_COLOR_RED\<rparr>)))
       [0, 1, 2, 3, 4, 5, 6]
     = [PANO_COLOR_RED, PANO_COLOR_GREEN, PANO_COLOR_BLUE, PANO_COLOR_BROWN,
        PANO_COLOR_CYAN, PANO_COLOR_YELLOW, PANO_COLOR_RED]"
proof (intro conjI impI)
  assume "current_pano_color s \<in> {PANO_COLOR_RED, PANO_COLOR_GREEN, PANO_COLOR_BLUE,
        PANO_COLOR_BROWN, PANO_COLOR_CYAN, PANO_COLOR_YELLOW}"
  then have "current_pano_color s = 0 \<or> current_pano_color s = 1 \<or> current_pano_color s = 2
      \<or> current_pano_color s = 3 \<or> current_pano_color s = 4 \<or> current_pano_color s = 5"
    by simp
  then show "(advance_color ^^ 6) s = s"
    by (rule advance_color_6 [OF refl])
next
  show "map (\<lambda>k. current_pano_color ((advance_color ^^ k) (s\<lparr>current_pano_color := PANO_COLOR_RED\<rparr>)))
       [0, 1, 2, 3, 4, 5, 6]
     = [PANO_COLOR_RED, PANO_COLOR_GREEN, PANO_COLOR_BLUE, PANO_COLOR_BROWN,
        PANO_COLOR_CYAN, PANO_COLOR_YELLOW, PANO_COLOR_RED]"
    by (rule advance_color_order)
qed

theorem advance_color_cycle_witness:
  "current_pano_color (reset_state\<lparr>current_pano_color := PANO_COLOR_YELLOW\<rparr>)
     \<in> {PANO_COLOR_RED, PANO_COLOR_GREEN, PANO_COLOR_BLUE,
        PANO_COLOR_BROWN, PANO_COLOR_CYAN, PANO_COLOR_YELLOW}
 \<and> (advance_color ^^ 6) (reset_state\<lparr>current_pano_color := PANO_COLOR_YELLOW\<rparr>)
     = reset_state\<lparr>current_pano_color := PANO_COLOR_YELLOW\<rparr>"
  using advance_color_cycle [of "reset_state\<lparr>current_pano_color := PANO_COLOR_YELLOW\<rparr>"]
  by simp

section \<open>Pulse animator: the duty values written\<close>

text \<open>
  Claim C10. For every call of \<^verbatim>\<open>pano_led_pulse\<close> whose two computed duty
  increments are positive, every duty value passed to \<^verbatim>\<open>pano_led_write\<close> lies
  between 0 and 70, on both ramps, whether the fuel suffices for the call to return
  or not; with fuel for 71 iterations of each loop the call returns.
\<close>

theorem pano_led_pulse_duty_range:
  assumes "duty_increment on_ms = Inr inc" and "0 < inc"
    and "duty_increment off_ms = Inr dec" and "0 < dec"
  shows "\<exists>s'. (pano_led_pulse fuel c on_ms off_ms s = Done s'
               \<or> pano_led_pulse fuel c on_ms off_ms s = Pending s')
            \<and> (\<forall>d\<in>set (duties (emitted s s')). unat d \<le> 70)
            \<and> (71 \<le> fuel \<longrightarrow> pano_led_pulse fuel c on_ms off_ms s = Done s')"
proof -
  from assms(1) have inc: "inc \<le> 70" using duty_increment_range by blast
  from assms(3) have dec: "dec \<le> 70" using duty_increment_range by blast
  obtain s1 es1 where r1: "ramp_up fuel c inc 0 s = Done s1 \<or> ramp_up fuel c inc 0 s = Pending s1"
    and l1: "log s1 = log s @ es1" and d1: "\<forall>d\<in>set (duties es1). unat d \<le> 70"
    using ramp_up_bounded [OF assms(2) inc, of 0 fuel c s] by auto
  show ?thesis
  proof (cases "ramp_up fuel c inc 0 s = Done s1")
    case False
    with r1 have p: "ramp_up fuel c inc 0 s = Pending s1" by simp
    have "\<not> 71 \<le> fuel"
    proof
      assume "71 \<le> fuel"
      then obtain s2 where "ramp_up fuel c inc 0 s = Done s2"
        using ramp_up_returns [OF assms(2) inc, of 0 fuel c s] by auto
      with p show False by simp
    qed
    moreover have "pano_led_pulse fuel c on_ms off_ms s = Pending s1"
      using p assms(1) by (simp add: pano_led_pulse_def)
    moreover have "\<forall>d\<in>set (duties (emitted s s1)). unat d \<le> 70"
      using d1 emitted_append [OF l1] by simp
    ultimately show ?thesis by blast
  next
    case True
    obtain s2 es2 where r2: "ramp_down fuel c dec 70 s1 = Done s2 \<or> ramp_down fuel c dec 70 s1 = Pending s2"
      and l2: "log s2 = log s1 @ es2" and d2: "\<forall>d\<in>set (duties es2). unat d \<le> 70"
      using ramp_down_bounded [OF assms(4) dec, of 70 fuel c s1] by auto
    have pulse: "pano_led_pulse fuel c on_ms off_ms s = ramp_down fuel c dec 70 s1"
      using True assms(1,3) by (simp add: pano_led_pulse_def)
    have "log s2 = log s @ (es1 @ es2)" using l1 l2 by simp
    then have "emitted s s2 = es1 @ es2" by (rule emitted_append)
    with d1 d2 have "\<forall>d\<in>set (duties (emitted s s2)). unat d \<le> 70"
      by (auto simp add: duties_append)
    moreover have "71 \<le> fuel \<longrightarrow> ramp_down fuel c dec 70 s1 = Done s2"
    proof
      assume "71 \<le> fuel"
      then obtain s3 where "ramp_down fuel c dec 70 s1 = Done s3"
        using ramp_down_returns [OF assms(4) dec, of 70 fuel c s1] by auto
      with r2 show "ramp_down fuel c dec 70 s1 = Done s2" by auto
    qed
    ultimately show ?thesis using r2 pulse by auto
  qed
qed

theorem pano_led_pulse_duty_range_witness:
  "duty_increment 200 = Inr 3 \<and> (0::int) < 3
   \<and> (\<exists>s'. pano_led_pulse 100 PANO_COLOR_RED 200 200 reset_state = Done s'
          \<and> (\<forall>d\<in>set (duties (emitted reset_state s')). unat d \<le> 70))"
proof -
  have h: "duty_increment 200 = Inr 3" by (rule duty_increment_200)
  have p: "(0::int) < 3" by simp
  from pano_led_pulse_duty_range [OF h p h p, of 100 PANO_COLOR_RED reset_state]
  show ?thesis using h by auto
qed

text \<open>
  Claim C9. The duty increment is computed by a division by the step count with no
  test for zero. For every duration below 10 ms the step count is 0 and the
  division is a division by zero: a call of \<^verbatim>\<open>pano_led_pulse\<close> with such an
  on-duration ends there, whatever the fuel, and a call with such an off-duration
  ends there as soon as its first ramp has returned. Hence a call that returns has
  both durations at least 10 ms.
\<close>

theorem pano_led_pulse_division_by_zero:
  "(unat d < 10 \<longrightarrow> steps d = 0 \<and> duty_increment d = Inl DivByZero)
 \<and> (unat on_ms < 10 \<longrightarrow> pano_led_pulse fuel c on_ms off_ms s = Fault DivByZero)
 \<and> (unat off_ms < 10 \<and> duty_increment on_ms = Inr inc \<and> ramp_up fuel c inc 0 s = Done s1 \<longrightarrow>
      pano_led_pulse fuel c on_ms off_ms s = Fault DivByZero)
 \<and> (pano_led_pulse fuel c on_ms off_ms s = Done s' \<longrightarrow> 10 \<le> unat on_ms \<and> 10 \<le> unat off_ms)"
proof (intro conjI impI)
  assume "unat d < 10"
  then show "steps d = 0" by (rule steps_small)
  then show "duty_increment d = Inl DivByZero" by (simp add: duty_increment_eq)
next
  assume "unat on_ms < 10"
  then show "pano_led_pulse fuel c on_ms off_ms s = Fault DivByZero"
    by (simp add: pano_led_pulse_def duty_increment_eq steps_small)
next
  assume "unat off_ms < 10 \<and> duty_increment on_ms = Inr inc \<and> ramp_up fuel c inc 0 s = Done s1"
  then show "pano_led_pulse fuel c on_ms off_ms s = Fault DivByZero"
    by (simp add: pano_led_pulse_def duty_increment_eq [of off_ms] steps_small)
next
  assume ret: "pano_led_pulse fuel c on_ms off_ms s = Done s'"
  show "10 \<le> unat on_ms"
  proof (rule ccontr)
    assume "\<not> 10 \<le> unat on_ms"
    then have "pano_led_pulse fuel c on_ms off_ms s = Fault DivByZero"
      by (simp add: pano_led_pulse_def duty_increment_eq steps_small)
    with ret show False by simp
  qed
  show "10 \<le> unat off_ms"
  proof (rule ccontr)
    assume "\<not> 10 \<le> unat off_ms"
    then have "duty_increment off_ms = Inl DivByZero"
      by (simp add: duty_increment_eq steps_small)
    with ret show False
      by (simp add: pano_led_pulse_def split: sum.splits run.splits)
  qed
qed

theorem pano_led_pulse_division_by_zero_witness:
  "unat (5 :: u32) < 10
 \<and> steps 5 = 0
 \<and> pano_led_pulse 0 PANO_COLOR_RED 5 200 reset_state = Fault DivByZero
 \<and> pano_led_pulse 24 PANO_COLOR_RED 200 5 reset_state = Fault DivByZero"
proof -
  have a: "unat (5 :: u32) < 10" by simp
  have b: "duty_increment 200 = Inr 3" by (rule duty_increment_200)
  have c: "ramp_up 24 PANO_COLOR_RED 3 0 reset_state = Done (foldl (ramp_step PANO_COLOR_RED) reset_state
     [0, 3, 6, 9, 12, 15, 18, 21, 24, 27, 30, 33, 36, 39, 42, 45, 48, 51, 54, 57, 60, 63, 66, 69])"
    using ramp_up_200 [of 0 PANO_COLOR_RED reset_state] by simp
  show ?thesis
    using a
      pano_led_pulse_division_by_zero [of 5 5 0 PANO_COLOR_RED 200 reset_state]
      pano_led_pulse_division_by_zero [of 5 200 24 PANO_COLOR_RED 5 reset_state 3, OF] b c
    by simp
qed

text \<open>
  Claim C4, with the exact bounds. The step count is the duration divided by 10 and converted
  to the 16-bit \<^verbatim>\<open>int\<close>; it equals the truncated quotient for durations below
  327680 ms. The duty increment is 70 divided by the step count, truncated towards
  zero. Whenever the step count exceeds 70, which is the case for the durations from
  710 ms up to 327679 ms, the increment is 0; a ramp with increment 0 writes the
  same duty (0 going up, 70 going down) in every iteration and has not returned
  after any number of iterations, and so has the call. A call of
  \<^verbatim>\<open>pano_led_pulse\<close> that returns has two nonzero increments.
\<close>

theorem pano_led_pulse_zero_increment:
  "(unat d < 327680 \<longrightarrow> steps d = int (unat d div 10))
 \<and> duty_increment d = (if steps d = 0 then Inl DivByZero else Inr (70 sdiv steps d))
 \<and> (710 \<le> unat d \<and> unat d < 327680 \<longrightarrow> 70 < steps d)
 \<and> (70 < steps d \<longrightarrow> duty_increment d = Inr 0)
 \<and> ramp_up fuel c 0 0 s = Pending (foldl (ramp_step c) s (replicate fuel 0))
 \<and> ramp_down fuel c 0 PANO_LED_DUTY_CYCLE s = Pending (foldl (ramp_step c) s (replicate fuel 70))
 \<and> (70 < steps on_ms \<longrightarrow>
      pano_led_pulse fuel c on_ms off_ms s = Pending (foldl (ramp_step c) s (replicate fuel 0)))
 \<and> (duty_increment on_ms = Inr inc \<and> ramp_up fuel c inc 0 s = Done s1 \<and> 70 < steps off_ms \<longrightarrow>
      pano_led_pulse fuel c on_ms off_ms s = Pending (foldl (ramp_step c) s1 (replicate fuel 70)))
 \<and> (pano_led_pulse fuel c on_ms off_ms s = Done s' \<longrightarrow>
      (\<exists>i j. duty_increment on_ms = Inr i \<and> i \<noteq> 0 \<and> duty_increment off_ms = Inr j \<and> j \<noteq> 0))"
proof (intro conjI impI)
  assume "unat d < 327680"
  then show "steps d = int (unat d div 10)" by (rule steps_exact)
next
  show "duty_increment d = (if steps d = 0 then Inl DivByZero else Inr (70 sdiv steps d))"
    by (rule duty_increment_eq)
next
  assume a: "710 \<le> unat d \<and> unat d < 327680"
  then have "steps d = int (unat d div 10)" by (simp add: steps_exact)
  moreover from a have "71 \<le> unat d div 10" by presburger
  ultimately show "70 < steps d" by simp
next
  assume "70 < steps d"
  then show "duty_increment d = Inr 0" by (rule duty_increment_zero)
next
  show "ramp_up fuel c 0 0 s = Pending (foldl (ramp_step c) s (replicate fuel 0))"
    by (rule ramp_up_hold) simp_all
next
  show "ramp_down fuel c 0 PANO_LED_DUTY_CYCLE s = Pending (foldl (ramp_step c) s (replicate fuel 70))"
    unfolding PANO_LED_DUTY_CYCLE_def by (rule ramp_down_hold) simp_all
next
  assume "70 < steps on_ms"
  then have "duty_increment on_ms = Inr 0" by (rule duty_increment_zero)
  moreover have "ramp_up fuel c 0 0 s = Pending (foldl (ramp_step c) s (replicate fuel 0))"
    by (rule ramp_up_hold) simp_all
  ultimately show "pano_led_pulse fuel c on_ms off_ms s = Pending (foldl (ramp_step c) s (replicate fuel 0))"
    by (simp add: pano_led_pulse_def)
next
  assume a: "duty_increment on_ms = Inr inc \<and> ramp_up fuel c inc 0 s = Done s1 \<and> 70 < steps off_ms"
  then have "duty_increment off_ms = Inr 0" by (simp add: duty_increment_zero)
  moreover have "ramp_down fuel c 0 70 s1 = Pending (foldl (ramp_step c) s1 (replicate fuel 70))"
    by (rule ramp_down_hold) simp_all
  ultimately show "pano_led_pulse fuel c on_ms off_ms s = Pending (foldl (ramp_step c) s1 (replicate fuel 70))"
    using a by (simp add: pano_led_pulse_def)
next
  assume ret: "pano_led_pulse fuel c on_ms off_ms s = Done s'"
  then obtain i where i: "duty_increment on_ms = Inr i"
    by (auto simp add: pano_led_pulse_def split: sum.splits)
  with ret obtain s1 where s1: "ramp_up fuel c i 0 s = Done s1"
    by (auto simp add: pano_led_pulse_def split: run.splits)
  with ret i obtain j where j: "duty_increment off_ms = Inr j"
    by (auto simp add: pano_led_pulse_def split: sum.splits)
  with ret i s1 have d: "ramp_down fuel c j 70 s1 = Done s'"
    by (simp add: pano_led_pulse_def)
  have "i \<noteq> 0"
  proof
    assume "i = 0"
    then have "ramp_up fuel c i 0 s = Pending (foldl (ramp_step c) s (replicate fuel 0))"
      using ramp_up_hold [of 0 fuel c s] by simp
    with s1 show False by simp
  qed
  moreover have "j \<noteq> 0"
  proof
    assume "j = 0"
    then have "ramp_down fuel c j 70 s1 = Pending (foldl (ramp_step c) s1 (replicate fuel 70))"
      using ramp_down_hold [of 70 fuel c s1] by simp
    with d show False by simp
  qed
  ultimately show "\<exists>i j. duty_increment on_ms = Inr i \<and> i \<noteq> 0 \<and> duty_increment off_ms = Inr j \<and> j \<noteq> 0"
    using i j by blast
qed

theorem pano_led_pulse_zero_increment_witness:
  "710 \<le> unat (1000 :: u32) \<and> unat (1000 :: u32) < 327680
 \<and> steps 1000 = 100 \<and> duty_increment 1000 = Inr 0
 \<and> pano_led_pulse 3 PANO_COLOR_RED 1000 200 reset_state
     = Pending (foldl (ramp_step PANO_COLOR_RED) reset_state [0, 0, 0])"
  using pano_led_pulse_zero_increment [of 1000 3 PANO_COLOR_RED reset_state 1000 200]
  by (simp add: numeral_3_eq_3)

text \<open>
  Claim C4 as stated fails for the durations from 701 to 709 ms: at 705 ms the step
  count is 70, the increment is 1 and not 0, and the call returns after 71 writes
  going up (0, 1, .., 70) and 71 going down (70, 69, .., 0). It also fails where the
  quotient does not fit the 16-bit \<^verbatim>\<open>int\<close>: at 655350 ms the quotient 65535 becomes
  the step count -1, and the increment is -70.
\<close>

theorem pano_led_pulse_705_counterexample:
  "700 < unat (705 :: u32) \<and> steps 705 = 70 \<and> duty_increment 705 = Inr 1
 \<and> pano_led_pulse 71 PANO_COLOR_RED 705 705 reset_state
     = Done (foldl (ramp_step PANO_COLOR_RED) reset_state (map int [0..<71] @ rev (map int [0..<71])))
 \<and> 700 < unat (655350 :: u32) \<and> steps 655350 = - 1 \<and> duty_increment 655350 = Inr (- 70)"
proof -
  have st: "steps 705 = 70" by (simp add: steps_exact)
  then have di: "duty_increment 705 = Inr 1"
    by (simp add: duty_increment_eq signed_divide_int_def)
  have "\<forall>k<71. 0 + int k * 1 \<le> 70" by auto
  then have "ramp_up 71 c 1 0 s = Done (foldl (ramp_step c) s (map (\<lambda>k. 0 + int k * 1) [0..<71]))" for c s
    by (intro ramp_up_iter) simp_all
  then have up: "ramp_up 71 c 1 0 s = Done (foldl (ramp_step c) s (map int [0..<71]))" for c s
    unfolding up_705 .
  have "\<forall>k<71. 0 \<le> 70 - int k * 1" by auto
  then have "ramp_down 71 c 1 70 s = Done (foldl (ramp_step c) s (map (\<lambda>k. 70 - int k * 1) [0..<71]))" for c s
    by (intro ramp_down_iter) simp_all
  then have down: "ramp_down 71 c 1 70 s = Done (foldl (ramp_step c) s (rev (map int [0..<71])))" for c s
    unfolding down_705 .
  have "pano_led_pulse 71 PANO_COLOR_RED 705 705 reset_state
     = Done (foldl (ramp_step PANO_COLOR_RED) reset_state (map int [0..<71] @ rev (map int [0..<71])))"
    unfolding pano_led_pulse_def di
    by (simp only: up down PANO_LED_DUTY_CYCLE_def sum.case run.case foldl_append)
  with st di show ?thesis by (simp add: steps_655350 di_655350)
qed

text \<open>
  Claim C1, on the code. \<^verbatim>\<open>pano_led_pulse(color, 200, 200)\<close> computes 20
  steps and the increment \<open>70 / 20 = 3\<close>; its first loop runs while the duty is at
  most 70 and so writes the 24 duties 0, 3, .., 69, its second loop runs while the
  duty is at least 0 and writes the 24 duties 70, 67, .., 1. Every write is followed
  by \<^verbatim>\<open>delay(10)\<close>, the call returns, and the last duty written is 1.
\<close>

theorem pano_led_pulse_200_200:
  "\<exists>s'. pano_led_pulse (24 + n) c 200 200 s = Done s'
     \<and> s' = foldl (ramp_step c) s
         ([0, 3, 6, 9, 12, 15, 18, 21, 24, 27, 30, 33, 36, 39, 42, 45, 48, 51, 54, 57, 60, 63, 66, 69]
          @ [70, 67, 64, 61, 58, 55, 52, 49, 46, 43, 40, 37, 34, 31, 28, 25, 22, 19, 16, 13, 10, 7, 4, 1])
     \<and> duties (emitted s s') =
         [0, 3, 6, 9, 12, 15, 18, 21, 24, 27, 30, 33, 36, 39, 42, 45, 48, 51, 54, 57, 60, 63, 66, 69]
          @ [70, 67, 64, 61, 58, 55, 52, 49, 46, 43, 40, 37, 34, 31, 28, 25, 22, 19, 16, 13, 10, 7, 4, 1]"
proof -
  let ?up = "[0, 3, 6, 9, 12, 15, 18, 21, 24, 27, 30, 33, 36, 39, 42, 45, 48, 51, 54, 57, 60, 63, 66, 69] :: int list"
  let ?down = "[70, 67, 64, 61, 58, 55, 52, 49, 46, 43, 40, 37, 34, 31, 28, 25, 22, 19, 16, 13, 10, 7, 4, 1] :: int list"
  have run: "pano_led_pulse (24 + n) c 200 200 s = Done (foldl (ramp_step c) s (?up @ ?down))"
    unfolding pano_led_pulse_def duty_increment_200
    by (simp only: ramp_up_200 ramp_down_200 PANO_LED_DUTY_CYCLE_def sum.case run.case foldl_append)
  obtain es where es: "log (foldl (ramp_step c) s (?up @ ?down)) = log s @ es"
     "duties es = map uint8_of_int (?up @ ?down)"
    using log_foldl_ramp_step by blast
  have "duties (emitted s (foldl (ramp_step c) s (?up @ ?down))) = map uint8_of_int (?up @ ?down)"
    using es emitted_append by simp
  also have "\<dots> = [0, 3, 6, 9, 12, 15, 18, 21, 24, 27, 30, 33, 36, 39, 42, 45, 48, 51, 54, 57, 60, 63, 66, 69]
          @ [70, 67, 64, 61, 58, 55, 52, 49, 46, 43, 40, 37, 34, 31, 28, 25, 22, 19, 16, 13, 10, 7, 4, 1]"
    by (simp add: uint8_of_int_def)
  finally show ?thesis using run by blast
qed

section \<open>House LED PWM controller: the order of the register accesses\<close>

text \<open>
  Claim C8. Every run of \<^verbatim>\<open>house_led_pwm_start\<close> accesses the registers in one
  order: it writes \<^verbatim>\<open>TCD0.CTRLC\<close> with the override bit cleared, writes the signature
  to \<^verbatim>\<open>CPU_CCP\<close>, writes the output enable to \<^verbatim>\<open>TCD0.FAULTCTRL\<close>, and then reads
  \<^verbatim>\<open>TCD0.STATUS\<close> again and again. If the \<open>n\<close>-th read is the first that has the
  enable-ready bit set, that read is the last one, and the write of \<^verbatim>\<open>TCD0.CTRLA\<close>
  with the enable bit set follows it at once and ends the run. As long as no read
  has the bit set, the run consists of the three writes and the reads only:
  \<^verbatim>\<open>TCD0.CTRLA\<close> is not written. One of the two cases holds for every sequence of
  status values and every number of reads.
\<close>

theorem house_led_pwm_start_order:
  "((\<exists>n<fuel. (\<forall>i<n. status i AND TCD_ENRDY_bm io = 0) \<and> status n AND TCD_ENRDY_bm io \<noteq> 0)
    \<or> (\<forall>i<fuel. status i AND TCD_ENRDY_bm io = 0))
 \<and> (n < fuel \<and> (\<forall>i<n. status i AND TCD_ENRDY_bm io = 0) \<and> status n AND TCD_ENRDY_bm io \<noteq> 0 \<longrightarrow>
      (\<exists>s'. house_led_pwm_start io status fuel s = Done s'
         \<and> emitted s s' =
             [RegWrite TCD0_CTRLC (io_reg s TCD0_CTRLC AND NOT (TCD_CMPOVR_bm io)),
              RegWrite CPU_CCP (CCP_IOREG_gc io),
              RegWrite TCD0_FAULTCTRL (TCD_CMPAEN_bm io)]
             @ map (\<lambda>i. RegRead TCD0_STATUS (status i)) [0..<Suc n]
             @ [RegWrite TCD0_CTRLA (io_reg s TCD0_CTRLA OR TCD_ENABLE_bm io)]))
 \<and> ((\<forall>i<fuel. status i AND TCD_ENRDY_bm io = 0) \<longrightarrow>
      (\<exists>s'. house_led_pwm_start io status fuel s = Pending s'
         \<and> emitted s s' =
             [RegWrite TCD0_CTRLC (io_reg s TCD0_CTRLC AND NOT (TCD_CMPOVR_bm io)),
              RegWrite CPU_CCP (CCP_IOREG_gc io),
              RegWrite TCD0_FAULTCTRL (TCD_CMPAEN_bm io)]
             @ map (\<lambda>i. RegRead TCD0_STATUS (status i)) [0..<fuel]))"
proof (intro conjI impI)
  show "(\<exists>n<fuel. (\<forall>i<n. status i AND TCD_ENRDY_bm io = 0) \<and> status n AND TCD_ENRDY_bm io \<noteq> 0)
    \<or> (\<forall>i<fuel. status i AND TCD_ENRDY_bm io = 0)"
    by (rule first_ready)
next
  assume "n < fuel \<and> (\<forall>i<n. status i AND TCD_ENRDY_bm io = 0) \<and> status n AND TCD_ENRDY_bm io \<noteq> 0"
  then have "n < fuel" "\<forall>i<n. status (0 + i) AND TCD_ENRDY_bm io = 0"
    "status (0 + n) AND TCD_ENRDY_bm io \<noteq> 0" by simp_all
  note w = wait_enrdy_ready [OF this]
  show "\<exists>s'. house_led_pwm_start io status fuel s = Done s'
         \<and> emitted s s' =
             [RegWrite TCD0_CTRLC (io_reg s TCD0_CTRLC AND NOT (TCD_CMPOVR_bm io)),
              RegWrite CPU_CCP (CCP_IOREG_gc io),
              RegWrite TCD0_FAULTCTRL (TCD_CMPAEN_bm io)]
             @ map (\<lambda>i. RegRead TCD0_STATUS (status i)) [0..<Suc n]
             @ [RegWrite TCD0_CTRLA (io_reg s TCD0_CTRLA OR TCD_ENABLE_bm io)]"
    unfolding house_led_pwm_start_def w
    by (simp add: emitted_def reg_or_def reg_and_def prim_defs del: upt_Suc)
next
  assume "\<forall>i<fuel. status i AND TCD_ENRDY_bm io = 0"
  then have "\<forall>i<fuel. status (0 + i) AND TCD_ENRDY_bm io = 0" by simp
  note w = wait_enrdy_never [OF this]
  show "\<exists>s'. house_led_pwm_start io status fuel s = Pending s'
         \<and> emitted s s' =
             [RegWrite TCD0_CTRLC (io_reg s TCD0_CTRLC AND NOT (TCD_CMPOVR_bm io)),
              RegWrite CPU_CCP (CCP_IOREG_gc io),
              RegWrite TCD0_FAULTCTRL (TCD_CMPAEN_bm io)]
             @ map (\<lambda>i. RegRead TCD0_STATUS (status i)) [0..<fuel]"
    unfolding house_led_pwm_start_def w
    by (simp add: emitted_def reg_or_def reg_and_def prim_defs del: upt_Suc)
qed

theorem house_led_pwm_start_order_witness:
  "(2::nat) < 5
 \<and> (\<exists>s'. house_led_pwm_start
            \<lparr>TCD_ENABLE_bm = 0x01, TCD_ENRDY_bm = 0x01, TCD_CMPOVR_bm = 0x01,
             TCD_CMPAEN_bm = 0x10, CCP_IOREG_gc = 0xD8\<rparr>
            (\<lambda>k. if k < 2 then 0 else 1) 5 reset_state = Done s'
        \<and> emitted reset_state s' =
            [RegWrite TCD0_CTRLC 0, RegWrite CPU_CCP 0xD8, RegWrite TCD0_FAULTCTRL 0x10,
             RegRead TCD0_STATUS 0, RegRead TCD0_STATUS 0, RegRead TCD0_STATUS 1,
             RegWrite TCD0_CTRLA 1])"
  using house_led_pwm_start_order [where n = 2 and fuel = 5
      and status = "\<lambda>k. if k < 2 then 0 else 1"
      and io = "\<lparr>TCD_ENABLE_bm = 0x01, TCD_ENRDY_bm = 0x01, TCD_CMPOVR_bm = 0x01,
             TCD_CMPAEN_bm = 0x10, CCP_IOREG_gc = 0xD8\<rparr>"
      and s = reset_state]
  by (simp add: reset_state_def upt_rec)

end
